theory Spec2Isabelle
  imports Main
begin

section \<open>Dependency graph engine of tree-core (dependencyGraph.ts)\<close>

subsection \<open>JavaScript containers\<close>

text \<open>
  A JavaScript \<^verbatim>\<open>Set\<close> iterates in insertion order and holds no element twice; a
  \<^verbatim>\<open>Map\<close> iterates its entries in the order in which the keys were first inserted and
  holds no key twice. Where the source iterates over a container, the container is a
  list (elements, or key/value entries) in iteration order. The operations below are
  the ones the source calls. The two sets \<^verbatim>\<open>visited\<close> and \<^verbatim>\<open>visiting\<close> of the
  traversals are only ever asked for membership, so they are HOL sets.
\<close>

type_synonym 'a js_set = "'a list"
type_synonym ('k, 'v) js_map = "('k \<times> 'v) list"

text \<open>\<^verbatim>\<open>s.add(x)\<close>: appends \<open>x\<close> unless it is present already.\<close>

definition set_add :: "'a \<Rightarrow> 'a js_set \<Rightarrow> 'a js_set" where
  "set_add x s = (if x \<in> set s then s else s @ [x])"

text \<open>\<^verbatim>\<open>new Set(iterable)\<close>: adds the elements one by one to an empty set.\<close>

definition new_Set :: "'a list \<Rightarrow> 'a js_set" where
  "new_Set xs = fold set_add xs []"

text \<open>\<^verbatim>\<open>m.get(k)\<close>, with \<open>None\<close> for \<^verbatim>\<open>undefined\<close>; \<^verbatim>\<open>m.has(k)\<close>; \<^verbatim>\<open>m.keys()\<close>.\<close>

definition map_get :: "('k, 'v) js_map \<Rightarrow> 'k \<Rightarrow> 'v option" where
  "map_get m k = map_of m k"

definition map_has :: "('k, 'v) js_map \<Rightarrow> 'k \<Rightarrow> bool" where
  "map_has m k = (k \<in> fst ` set m)"

definition map_keys :: "('k, 'v) js_map \<Rightarrow> 'k list" where
  "map_keys m = map fst m"

definition map_values :: "('k, 'v) js_map \<Rightarrow> 'v list" where
  "map_values m = map snd m"

text \<open>
  \<^verbatim>\<open>m.set(k, v)\<close>: an existing key keeps its position and gets the new value, a new
  key goes to the end.
\<close>

fun map_set :: "'k \<Rightarrow> 'v \<Rightarrow> ('k, 'v) js_map \<Rightarrow> ('k, 'v) js_map" where
  "map_set k v [] = [(k, v)]"
| "map_set k v ((k', v') # m) =
     (if k' = k then (k, v) # m else (k', v') # map_set k v m)"

text \<open>The representation invariants every JavaScript value satisfies.\<close>

definition wf_set :: "'a js_set \<Rightarrow> bool" where
  "wf_set s = distinct s"

definition wf_map :: "('k, 'v) js_map \<Rightarrow> bool" where
  "wf_map m = distinct (map fst m)"

definition wf_edges :: "('k, 'a js_set) js_map \<Rightarrow> bool" where
  "wf_edges m = (wf_map m \<and> list_all (\<lambda>(k, s). wf_set s) m)"

subsection \<open>Data model (types.ts)\<close>

record PackageInfo =
  name :: string
  version :: string
  path :: string
  dependencies :: "string js_set"
  devDependencies :: "string js_set"
  localDependencies :: "string js_set"

type_synonym edge_map = "(string, string js_set) js_map"

record DependencyGraph =
  packages :: "(string, PackageInfo) js_map"
  edges :: edge_map
  reverseEdges :: edge_map

text \<open>
  The records of \<^verbatim>\<open>SerializedGraph\<close>; their fields carry the prefix \<open>s_\<close> to keep
  them apart from the fields of the in-memory graph.
\<close>

record SerializedPackage =
  s_name :: string
  s_version :: string
  s_path :: string
  s_dependencies :: "string list"

record SerializedGraph =
  s_packages :: "SerializedPackage list"
  s_edges :: "(string \<times> string list) list"

subsection \<open>buildReverseGraph\<close>

text \<open>
  The body of the inner loop: create the entry of \<open>dep\<close> when it is missing, then add
  \<open>pkg\<close> to the set stored there. The source asserts with \<^verbatim>\<open>!\<close> that the entry exists;
  it does (lemma \<open>map_get_map_set\<close>), so the last branch is never taken.
\<close>

definition add_dependent :: "string \<Rightarrow> string \<Rightarrow> edge_map \<Rightarrow> edge_map" where
  "add_dependent pkg dep reverse =
     (let reverse1 = (if \<not> map_has reverse dep then map_set dep [] reverse else reverse)
      in case map_get reverse1 dep of
           Some s \<Rightarrow> map_set dep (set_add pkg s) reverse1
         | None \<Rightarrow> reverse1)"

definition buildReverseGraph :: "edge_map \<Rightarrow> edge_map" where
  "buildReverseGraph es =
     fold (\<lambda>(pkg, deps) reverse. fold (add_dependent pkg) deps reverse) es []"

text \<open>\<^verbatim>\<open>m.get(k) || new Set()\<close>: the stored set, or an empty one.\<close>

definition get_or_empty :: "edge_map \<Rightarrow> string \<Rightarrow> string js_set" where
  "get_or_empty m k = (case map_get m k of Some s \<Rightarrow> s | None \<Rightarrow> [])"

lemma get_or_empty_Nil: "p \<notin> fst ` set es \<Longrightarrow> get_or_empty es p = []"
  by (auto simp: get_or_empty_def map_get_def split: option.splits
      dest!: map_of_SomeD intro: rev_image_eqI)

subsection \<open>topologicalSort\<close>

text \<open>
  The closure \<^verbatim>\<open>visit\<close> reads and writes three variables of \<^verbatim>\<open>topologicalSort\<close>: the
  sets \<^verbatim>\<open>visited\<close> and \<^verbatim>\<open>visiting\<close> and the array \<^verbatim>\<open>result\<close>. They are the state
  that \<open>visit\<close> takes and returns. The \<^verbatim>\<open>throw\<close> is the value \<open>Inl\<close> of the message of
  the \<^verbatim>\<open>Error\<close>; it leaves every enclosing loop. \<open>visit_deps\<close> is the loop
  \<^verbatim>\<open>for (const dep of deps) visit(dep)\<close>.
\<close>

type_synonym sort_state = "string set \<times> string set \<times> string list"

definition cycle_message :: "string \<Rightarrow> string" where
  "cycle_message packageName =
     ''Circular dependency detected involving package: '' @ packageName"

function visit :: "edge_map \<Rightarrow> string \<Rightarrow> sort_state \<Rightarrow> string + sort_state"
  and visit_deps :: "edge_map \<Rightarrow> string list \<Rightarrow> sort_state \<Rightarrow> string + sort_state" where
  "visit es packageName (visited, visiting, result) =
     (if packageName \<in> visited then Inr (visited, visiting, result)
      else if packageName \<in> visiting then Inl (cycle_message packageName)
      else (case visit_deps es (get_or_empty es packageName)
                    (visited, insert packageName visiting, result) of
              Inl e \<Rightarrow> Inl e
            | Inr (visited', visiting', result') \<Rightarrow>
                Inr (insert packageName visited', visiting' - {packageName},
                     result' @ [packageName])))"
| "visit_deps es [] st = Inr st"
| "visit_deps es (dep # deps) st =
     (case visit es dep st of
        Inl e \<Rightarrow> Inl e
      | Inr st' \<Rightarrow> visit_deps es deps st')"
  by pat_completeness auto

text \<open>
  Termination. A call of \<open>visit\<close> that goes on to the dependencies puts a name into
  \<^verbatim>\<open>visiting\<close> that was not there, and a name that is not a key of \<^verbatim>\<open>edges\<close> has no
  dependencies; a call that returns leaves \<^verbatim>\<open>visiting\<close> as it found it.
\<close>

lemma visit_keeps_visiting_dom:
  "visit_visit_deps_dom (Inl (es, p, st)) \<Longrightarrow> visit es p st = Inr st'
     \<Longrightarrow> fst (snd st') = fst (snd st)"
  "visit_visit_deps_dom (Inr (es, ds, st)) \<Longrightarrow> visit_deps es ds st = Inr st'
     \<Longrightarrow> fst (snd st') = fst (snd st)"
proof (induction es p st and es ds st arbitrary: st' and st' rule: visit_visit_deps.pinduct)
  case (1 es packageName visited visiting result)
  then show ?case
    by (auto simp: visit.psimps split: if_splits sum.splits)
next
  case (2 es st)
  then show ?case by (simp add: visit_deps.psimps)
next
  case (3 es dep deps st)
  then show ?case
    by (auto simp: visit_deps.psimps split: sum.splits)
qed

definition sort_measure ::
  "(edge_map \<times> string \<times> sort_state) + (edge_map \<times> string list \<times> sort_state) \<Rightarrow> nat" where
  "sort_measure x = (case x of
      Inl (es, p, (visited, visiting, result)) \<Rightarrow> 2 * card (fst ` set es - visiting) + 1
    | Inr (es, ds, (visited, visiting, result)) \<Rightarrow>
        (if ds = [] then 0 else 2 * card (fst ` set es - visiting) + 2))"

definition loop_measure :: "'a + ('b \<times> 'c list \<times> 'd) \<Rightarrow> nat" where
  "loop_measure x = (case x of Inl _ \<Rightarrow> 0 | Inr (es, ds, st) \<Rightarrow> length ds)"

lemma sort_measure_enter:
  assumes "p \<notin> visiting"
  shows "sort_measure (Inr (es, get_or_empty es p, (visited, insert p visiting, result)))
         < sort_measure (Inl (es, p, (visited, visiting, result)))"
proof (cases "p \<in> fst ` set es")
  case True
  have "card (fst ` set es - insert p visiting) < card (fst ` set es - visiting)"
    using True assms by (intro psubset_card_mono) auto
  then show ?thesis by (simp add: sort_measure_def)
next
  case False
  then show ?thesis by (simp add: sort_measure_def get_or_empty_Nil)
qed

lemma sort_measure_dep:
  "sort_measure (Inl (es, dep, st)) < sort_measure (Inr (es, dep # deps, st))"
  by (cases st) (simp add: sort_measure_def)

lemma sort_measure_next:
  assumes "fst (snd st') = fst (snd st)"
  shows "sort_measure (Inr (es, deps, st')) < sort_measure (Inr (es, dep # deps, st))
       \<or> sort_measure (Inr (es, deps, st')) = sort_measure (Inr (es, dep # deps, st))
         \<and> loop_measure (Inr (es, deps, st')) < loop_measure (Inr (es, dep # deps, st))"
  using assms by (cases st; cases st') (auto simp: sort_measure_def loop_measure_def)

lemma visit_total: "All visit_visit_deps_dom"
  apply (relation "measures [sort_measure, loop_measure]")
     apply simp
    apply (simp add: sort_measure_enter)
   apply (simp add: sort_measure_dep)
  subgoal for es dep deps st st'
    using sort_measure_next [of st' st es deps dep]
      visit_keeps_visiting_dom(1) [of es dep st st']
    by auto
  done

termination visit
  by (rule visit_total)

declare visit.simps [simp del]

text \<open>The loop over \<^verbatim>\<open>packages.keys()\<close>, with its own test of \<^verbatim>\<open>visited\<close>.\<close>

fun sort_roots :: "edge_map \<Rightarrow> string list \<Rightarrow> sort_state \<Rightarrow> string + sort_state" where
  "sort_roots es [] st = Inr st"
| "sort_roots es (packageName # rest) (visited, visiting, result) =
     (if packageName \<notin> visited then
        (case visit es packageName (visited, visiting, result) of
           Inl e \<Rightarrow> Inl e
         | Inr st' \<Rightarrow> sort_roots es rest st')
      else sort_roots es rest (visited, visiting, result))"

definition topologicalSort :: "DependencyGraph \<Rightarrow> string + string list" where
  "topologicalSort graph =
     (case sort_roots (edges graph) (map_keys (packages graph)) ({}, {}, []) of
        Inl e \<Rightarrow> Inl e
      | Inr (visited, visiting, result) \<Rightarrow> Inr result)"

subsection \<open>findAllDependents\<close>

text \<open>
  The closure \<^verbatim>\<open>traverse\<close> works on the two sets \<^verbatim>\<open>dependents\<close> (returned at the end,
  so kept in insertion order) and \<^verbatim>\<open>visited\<close>. \<open>traverse_each\<close> is the loop over the
  direct dependents.
\<close>

type_synonym traverse_state = "string js_set \<times> string set"

function traverse :: "edge_map \<Rightarrow> string \<Rightarrow> traverse_state \<Rightarrow> traverse_state"
  and traverse_each :: "edge_map \<Rightarrow> string list \<Rightarrow> traverse_state \<Rightarrow> traverse_state" where
  "traverse reverse pkg (dependents, visited) =
     (if pkg \<in> visited then (dependents, visited)
      else traverse_each reverse (get_or_empty reverse pkg) (dependents, insert pkg visited))"
| "traverse_each reverse [] st = st"
| "traverse_each reverse (dependent # rest) (dependents, visited) =
     traverse_each reverse rest (traverse reverse dependent (set_add dependent dependents, visited))"
  by pat_completeness auto

lemma traverse_visited_mono_dom:
  "traverse_traverse_each_dom (Inl (reverse, p, st)) \<Longrightarrow> snd st \<subseteq> snd (traverse reverse p st)"
  "traverse_traverse_each_dom (Inr (reverse, ds, st)) \<Longrightarrow> snd st \<subseteq> snd (traverse_each reverse ds st)"
proof (induction reverse p st and reverse ds st rule: traverse_traverse_each.pinduct)
  case (1 reverse pkg dependents visited)
  then show ?case by (auto simp: traverse.psimps)
next
  case (2 reverse st)
  then show ?case by (simp add: traverse_each.psimps)
next
  case (3 reverse dependent rest dependents visited)
  then show ?case by (auto simp: traverse_each.psimps)
qed

definition traverse_measure ::
  "(edge_map \<times> string \<times> traverse_state) + (edge_map \<times> string list \<times> traverse_state) \<Rightarrow> nat"
  where
  "traverse_measure x = (case x of
      Inl (reverse, p, (dependents, visited)) \<Rightarrow> 2 * card (fst ` set reverse - visited) + 1
    | Inr (reverse, ds, (dependents, visited)) \<Rightarrow>
        (if ds = [] then 0 else 2 * card (fst ` set reverse - visited) + 2))"

lemma traverse_measure_enter:
  assumes "p \<notin> visited"
  shows "traverse_measure (Inr (reverse, get_or_empty reverse p, (dependents, insert p visited)))
         < traverse_measure (Inl (reverse, p, (dependents, visited)))"
proof (cases "p \<in> fst ` set reverse")
  case True
  have "card (fst ` set reverse - insert p visited) < card (fst ` set reverse - visited)"
    using True assms by (intro psubset_card_mono) auto
  then show ?thesis by (simp add: traverse_measure_def)
next
  case False
  then show ?thesis by (simp add: traverse_measure_def get_or_empty_Nil)
qed

lemma traverse_measure_next:
  assumes "visited \<subseteq> snd st'"
  shows "traverse_measure (Inr (reverse, rest, st'))
           < traverse_measure (Inr (reverse, d # rest, (dependents, visited)))
       \<or> traverse_measure (Inr (reverse, rest, st'))
           = traverse_measure (Inr (reverse, d # rest, (dependents, visited)))
         \<and> loop_measure (Inr (reverse, rest, st'))
           < loop_measure (Inr (reverse, d # rest, (dependents, visited)))"
proof -
  have "card (fst ` set reverse - snd st') \<le> card (fst ` set reverse - visited)"
    using assms by (intro card_mono) auto
  then show ?thesis
    by (cases st') (auto simp: traverse_measure_def loop_measure_def)
qed

lemma traverse_total: "All traverse_traverse_each_dom"
  apply (relation "measures [traverse_measure, loop_measure]")
     apply simp
    apply (simp add: traverse_measure_enter)
   apply (simp add: traverse_measure_def)
  subgoal for reverse dependent rest dependents visited
    using traverse_measure_next
        [of visited "traverse reverse dependent (set_add dependent dependents, visited)"
            reverse rest dependent dependents]
      traverse_visited_mono_dom(1) [of reverse dependent "(set_add dependent dependents, visited)"]
    by auto
  done

termination traverse
  by (rule traverse_total)

declare traverse.simps [simp del]

definition findAllDependents :: "string \<Rightarrow> DependencyGraph \<Rightarrow> string js_set" where
  "findAllDependents packageName graph =
     fst (traverse (reverseEdges graph) packageName ([], {}))"

subsection \<open>serializeGraph and deserializeGraph\<close>

text \<open>\<^verbatim>\<open>Array.from\<close> of a set is the list of its elements in insertion order.\<close>

definition serializePackage :: "PackageInfo \<Rightarrow> SerializedPackage" where
  "serializePackage pkg =
     \<lparr>s_name = name pkg, s_version = version pkg, s_path = path pkg,
      s_dependencies = dependencies pkg\<rparr>"

definition serializeGraph :: "DependencyGraph \<Rightarrow> SerializedGraph" where
  "serializeGraph graph =
     \<lparr>s_packages = map serializePackage (map_values (packages graph)),
      s_edges = map (\<lambda>(pkg, deps). (pkg, deps)) (edges graph)\<rparr>"

definition restorePackage :: "SerializedPackage \<Rightarrow> PackageInfo" where
  "restorePackage pkg =
     \<lparr>name = s_name pkg, version = s_version pkg, path = s_path pkg,
      dependencies = new_Set (s_dependencies pkg),
      devDependencies = [], localDependencies = []\<rparr>"

definition deserializeGraph :: "SerializedGraph \<Rightarrow> DependencyGraph" where
  "deserializeGraph serialized =
     (let pkgs = fold (\<lambda>pkg m. map_set (s_name pkg) (restorePackage pkg) m)
                   (s_packages serialized) [];
          es = fold (\<lambda>(pkg, deps) m. map_set pkg (new_Set deps) m) (s_edges serialized) [];
          reverse = buildReverseGraph es
      in \<lparr>packages = pkgs, edges = es, reverseEdges = reverse\<rparr>)"

subsection \<open>validateGraph\<close>

record ValidationResult =
  valid :: bool
  errors :: "string list"

definition missing_message :: "string \<Rightarrow> string \<Rightarrow> string" where
  "missing_message pkg dep =
     ''Package '' @ pkg @ '' depends on '' @ dep @ '' which doesn't exist''"

text \<open>The two nested loops that check the edge targets, pushing onto \<^verbatim>\<open>errors\<close>.\<close>

definition check_targets :: "DependencyGraph \<Rightarrow> string list \<Rightarrow> string list" where
  "check_targets graph errs =
     fold (\<lambda>(pkg, deps) errs1.
             fold (\<lambda>dep errs2.
                     if \<not> map_has (packages graph) dep
                     then errs2 @ [missing_message pkg dep] else errs2)
                  deps errs1)
          (edges graph) errs"

text \<open>The \<^verbatim>\<open>try\<close>/\<^verbatim>\<open>catch\<close> around the sort pushes the message of what was thrown.\<close>

definition validateGraph :: "DependencyGraph \<Rightarrow> ValidationResult" where
  "validateGraph graph =
     (let errs1 = check_targets graph [];
          errs2 = (case topologicalSort graph of
                     Inl message \<Rightarrow> errs1 @ [message]
                   | Inr order \<Rightarrow> errs1)
      in \<lparr>valid = (length errs2 = 0), errors = errs2\<rparr>)"

subsection \<open>buildDependencyGraph\<close>

text \<open>
  \<^verbatim>\<open>parsePackageJson\<close> reads a file through two libraries that are not part of the
  repository, so the builder takes it as a parameter: a function from the path to the
  error thrown or the \<^verbatim>\<open>PackageInfo\<close> returned. An error of the first pass leaves
  the builder at once.
\<close>

fun first_pass ::
  "(string \<Rightarrow> string + PackageInfo) \<Rightarrow> string list \<Rightarrow> (string, PackageInfo) js_map
     \<Rightarrow> string + (string, PackageInfo) js_map" where
  "first_pass parse [] pkgs = Inr pkgs"
| "first_pass parse (packageJsonPath # rest) pkgs =
     (case parse packageJsonPath of
        Inl e \<Rightarrow> Inl e
      | Inr packageInfo \<Rightarrow> first_pass parse rest (map_set (name packageInfo) packageInfo pkgs))"

text \<open>The inner loop of the second pass; \<^verbatim>\<open>localDeps\<close> and \<^verbatim>\<open>edgesSet\<close> get the same adds.\<close>

definition local_deps :: "(string, PackageInfo) js_map \<Rightarrow> PackageInfo \<Rightarrow> string js_set" where
  "local_deps pkgs packageInfo =
     fold (\<lambda>dep localDeps. if map_has pkgs dep then set_add dep localDeps else localDeps)
          (dependencies packageInfo) []"

text \<open>
  The second pass assigns to a field of the object stored in the map, so the entry of
  \<^verbatim>\<open>packages\<close> changes in place, and sets the entry of \<^verbatim>\<open>edges\<close>.
\<close>

definition second_pass ::
  "(string, PackageInfo) js_map \<Rightarrow> (string, PackageInfo) js_map \<times> edge_map" where
  "second_pass pkgs =
     fold (\<lambda>(packageName, packageInfo) (pkgs1, es).
             (map_set packageName
                (packageInfo\<lparr>localDependencies := local_deps pkgs1 packageInfo\<rparr>) pkgs1,
              map_set packageName (local_deps pkgs1 packageInfo) es))
          pkgs (pkgs, [])"

definition buildDependencyGraph ::
  "(string \<Rightarrow> string + PackageInfo) \<Rightarrow> string list \<Rightarrow> string + DependencyGraph" where
  "buildDependencyGraph parse packageJsonPaths =
     (case first_pass parse packageJsonPaths [] of
        Inl e \<Rightarrow> Inl e
      | Inr pkgs0 \<Rightarrow>
          (case second_pass pkgs0 of
             (pkgs, es) \<Rightarrow>
               Inr \<lparr>packages = pkgs, edges = es, reverseEdges = buildReverseGraph es\<rparr>))"

subsection \<open>Graphs of the test suite (tests/dependencyGraph.test.ts)\<close>

text \<open>
  \<^verbatim>\<open>createMockGraph\<close> builds a graph from a table of names and their dependencies
  (the keys of the object in insertion order).
\<close>

definition createMockGraph :: "(string \<times> string list) list \<Rightarrow> DependencyGraph" where
  "createMockGraph structure =
     (case fold (\<lambda>(n, deps) (pkgs, es).
                   (map_set n \<lparr>name = n, version = ''1.0.0'', path = ''/fake/path/'' @ n,
                               dependencies = new_Set deps, devDependencies = [],
                               localDependencies = new_Set deps\<rparr> pkgs,
                    map_set n (new_Set deps) es))
                structure ([], []) of
        (pkgs, es) \<Rightarrow> \<lparr>packages = pkgs, edges = es, reverseEdges = buildReverseGraph es\<rparr>)"

definition chain_graph :: DependencyGraph where
  "chain_graph =
     createMockGraph [(''a'', []), (''b'', [''a'']), (''c'', [''b'']), (''d'', [''c''])]"

definition cycle_graph :: DependencyGraph where
  "cycle_graph = createMockGraph [(''a'', [''b'']), (''b'', [''a''])]"

subsection \<open>Vocabulary of the properties\<close>

text \<open>The names that have a forward edge to \<open>target\<close>: its direct dependents.\<close>

definition dependents_in :: "edge_map \<Rightarrow> string \<Rightarrow> string set" where
  "dependents_in es target = {source. \<exists>deps. (source, deps) \<in> set es \<and> target \<in> set deps}"

text \<open>
  The relation of a map of edges: \<open>a\<close> is related to every member of the set that
  \<^verbatim>\<open>get(a) || new Set()\<close> gives.
\<close>

definition edge_rel :: "edge_map \<Rightarrow> (string \<times> string) set" where
  "edge_rel es = {(a, b). b \<in> set (get_or_empty es a)}"

section \<open>Properties\<close>

subsection \<open>Containers\<close>

lemma set_set_add [simp]: "set (set_add x s) = insert x (set s)"
  by (auto simp: set_add_def)

lemma distinct_set_add [simp]: "distinct (set_add x s) = distinct s"
  by (auto simp: set_add_def)

lemma set_add_eq_Nil [simp]: "set_add x s \<noteq> []"
  by (auto simp: set_add_def)

lemma map_get_map_set: "map_get (map_set k v m) k' = (if k' = k then Some v else map_get m k')"
  by (induction k v m rule: map_set.induct) (auto simp: map_get_def)

lemma keys_map_set: "fst ` set (map_set k v m) = insert k (fst ` set m)"
  by (induction k v m rule: map_set.induct) auto

lemma map_has_iff: "map_has m k \<longleftrightarrow> map_get m k \<noteq> None"
  by (simp add: map_has_def map_get_def map_of_eq_None_iff)

lemma distinct_keys_map_set: "distinct (map fst (map_set k v m)) = distinct (map fst m)"
  by (induction k v m rule: map_set.induct) (auto simp: keys_map_set)


subsection \<open>buildReverseGraph is the transpose\<close>

lemma map_get_add_dependent:
  "map_get (add_dependent pkg dep r) k =
     (if k = dep then Some (set_add pkg (get_or_empty r dep)) else map_get r k)"
  by (auto simp: add_dependent_def Let_def map_get_map_set map_has_iff get_or_empty_def
      split: option.splits)

lemma set_add_idem: "set_add x (set_add x s) = set_add x s"
  by (simp add: set_add_def)

lemma get_or_empty_add_dependent:
  "get_or_empty (add_dependent pkg dep r) k =
     (if k = dep then set_add pkg (get_or_empty r dep) else get_or_empty r k)"
  by (simp add: get_or_empty_def [of "add_dependent pkg dep r"] map_get_add_dependent)
     (simp add: get_or_empty_def)

lemma map_get_fold_add_dependent:
  "map_get (fold (add_dependent pkg) deps r) k =
     (if k \<in> set deps then Some (set_add pkg (get_or_empty r k)) else map_get r k)"
proof (induction deps arbitrary: r)
  case Nil
  then show ?case by simp
next
  case (Cons d deps)
  have "map_get (fold (add_dependent pkg) (d # deps) r) k =
        map_get (fold (add_dependent pkg) deps (add_dependent pkg d r)) k"
    by simp
  also have "\<dots> = (if k \<in> set deps
                   then Some (set_add pkg (get_or_empty (add_dependent pkg d r) k))
                   else map_get (add_dependent pkg d r) k)"
    by (rule Cons.IH)
  also have "\<dots> = (if k \<in> set (d # deps) then Some (set_add pkg (get_or_empty r k))
                   else map_get r k)"
    by (simp add: get_or_empty_add_dependent map_get_add_dependent set_add_idem)
  finally show ?case .
qed

lemma set_get_or_empty_fold:
  "set (get_or_empty (fold (add_dependent pkg) deps r) k) =
     set (get_or_empty r k) \<union> (if k \<in> set deps then {pkg} else {})"
proof (cases "k \<in> set deps")
  case True
  then have "get_or_empty (fold (add_dependent pkg) deps r) k = set_add pkg (get_or_empty r k)"
    by (simp add: get_or_empty_def [of "fold (add_dependent pkg) deps r"]
        map_get_fold_add_dependent)
  with True show ?thesis by simp
next
  case False
  then have "get_or_empty (fold (add_dependent pkg) deps r) k = get_or_empty r k"
    by (simp add: get_or_empty_def map_get_fold_add_dependent)
  with False show ?thesis by simp
qed

lemma set_get_or_empty_reverse_fold:
  "set (get_or_empty (fold (\<lambda>(pkg, deps) reverse. fold (add_dependent pkg) deps reverse) es r) k) =
     set (get_or_empty r k) \<union> dependents_in es k"
proof (induction es arbitrary: r)
  case Nil
  then show ?case by (simp add: dependents_in_def)
next
  case (Cons e es)
  obtain pkg deps where e: "e = (pkg, deps)" by (cases e)
  show ?case
    by (auto simp: e Cons.IH set_get_or_empty_fold dependents_in_def)
qed

lemma no_empty_fold_add_dependent:
  "map_get r k \<noteq> Some [] \<Longrightarrow> map_get (fold (add_dependent pkg) deps r) k \<noteq> Some []"
  by (simp add: map_get_fold_add_dependent)

lemma no_empty_reverse_fold:
  "map_get r k \<noteq> Some [] \<Longrightarrow>
   map_get (fold (\<lambda>(pkg, deps) reverse. fold (add_dependent pkg) deps reverse) es r) k \<noteq> Some []"
proof (induction es arbitrary: r)
  case Nil
  then show ?case by simp
next
  case (Cons e es)
  obtain pkg deps where e: "e = (pkg, deps)" by (cases e)
  show ?case
    using Cons.prems by (simp add: e Cons.IH no_empty_fold_add_dependent)
qed

lemma set_get_or_empty_buildReverseGraph:
  "set (get_or_empty (buildReverseGraph es) k) = dependents_in es k"
  by (simp add: buildReverseGraph_def set_get_or_empty_reverse_fold)
     (simp add: get_or_empty_def map_get_def)

lemma buildReverseGraph_no_empty: "map_get (buildReverseGraph es) k \<noteq> Some []"
  unfolding buildReverseGraph_def
  by (rule no_empty_reverse_fold) (simp add: map_get_def)

text \<open>
  Claim C7. For every forward-edge map, \<open>source\<close> is in the set that the result of
  \<^verbatim>\<open>buildReverseGraph\<close> holds at \<open>target\<close> exactly when \<open>target\<close> is in the set of an
  entry of \<open>source\<close>; \<open>target\<close> is a key of the result exactly when it has a dependent;
  and no key of the result is mapped to the empty set.
\<close>

theorem buildReverseGraph_transpose:
  "((\<exists>s. map_get (buildReverseGraph es) target = Some s \<and> source \<in> set s)
      \<longleftrightarrow> (\<exists>deps. (source, deps) \<in> set es \<and> target \<in> set deps))
   \<and> (map_has (buildReverseGraph es) target
      \<longleftrightarrow> (\<exists>source deps. (source, deps) \<in> set es \<and> target \<in> set deps))
   \<and> map_get (buildReverseGraph es) target \<noteq> Some []"
proof -
  have a: "set (get_or_empty (buildReverseGraph es) target) = dependents_in es target"
    by (rule set_get_or_empty_buildReverseGraph)
  have b: "map_get (buildReverseGraph es) target \<noteq> Some []"
    by (rule buildReverseGraph_no_empty)
  have 1: "(\<exists>s. map_get (buildReverseGraph es) target = Some s \<and> source \<in> set s)
      \<longleftrightarrow> source \<in> set (get_or_empty (buildReverseGraph es) target)"
    by (cases "map_get (buildReverseGraph es) target") (simp_all add: get_or_empty_def)
  have 2: "map_has (buildReverseGraph es) target
      \<longleftrightarrow> set (get_or_empty (buildReverseGraph es) target) \<noteq> {}"
    using b by (cases "map_get (buildReverseGraph es) target")
      (simp_all add: map_has_iff get_or_empty_def)
  have 3: "source \<in> dependents_in es target
      \<longleftrightarrow> (\<exists>deps. (source, deps) \<in> set es \<and> target \<in> set deps)"
    by (simp add: dependents_in_def)
  have 4: "dependents_in es target \<noteq> {}
      \<longleftrightarrow> (\<exists>source deps. (source, deps) \<in> set es \<and> target \<in> set deps)"
    unfolding dependents_in_def by blast
  from 1 a 3 have c1: "(\<exists>s. map_get (buildReverseGraph es) target = Some s \<and> source \<in> set s)
      \<longleftrightarrow> (\<exists>deps. (source, deps) \<in> set es \<and> target \<in> set deps)"
    by simp
  from 2 a 4 have c2: "map_has (buildReverseGraph es) target
      \<longleftrightarrow> (\<exists>source deps. (source, deps) \<in> set es \<and> target \<in> set deps)"
    by simp
  from c1 c2 b show ?thesis by (intro conjI)
qed

text \<open>The test of the repository for \<^verbatim>\<open>buildReverseGraph\<close>, as an instance of C7.\<close>

theorem buildReverseGraph_transpose_witness:
  "buildReverseGraph [(''a'', []), (''b'', [''a'']), (''c'', [''a'', ''b''])]
     = [(''a'', [''b'', ''c'']), (''b'', [''c''])]
   \<and> map_get (buildReverseGraph [(''a'', []), (''b'', [''a'']), (''c'', [''a'', ''b''])]) ''c'' = None
   \<and> \<not> map_has (buildReverseGraph [(''a'', []), (''b'', [''a'']), (''c'', [''a'', ''b''])]) ''c''"
  using buildReverseGraph_transpose [of "[(''a'', []), (''b'', [''a'']), (''c'', [''a'', ''b''])]" "''c''" "''a''"]
  by (simp add: buildReverseGraph_def add_dependent_def map_has_def map_get_def set_add_def)

subsection \<open>findAllDependents computes the transitive dependents\<close>

lemma edge_rel_Image: "edge_rel es `` {p} = set (get_or_empty es p)"
  by (auto simp: edge_rel_def)

lemma traverse_visited_mono:
  "snd st \<subseteq> snd (traverse reverse p st)"
  "snd st \<subseteq> snd (traverse_each reverse ds st)"
  by (induction reverse p st and reverse ds st rule: traverse_traverse_each.induct)
    (auto simp: traverse.simps)

lemma traverse_visits:
  "p \<in> snd (traverse reverse p st)"
  "set ds \<subseteq> snd (traverse_each reverse ds st)"
proof (induction reverse p st and reverse ds st rule: traverse_traverse_each.induct)
  case (1 reverse pkg dependents visited)
  then show ?case
    using traverse_visited_mono(2) [of "(dependents, insert pkg visited)" reverse "get_or_empty reverse pkg"]
    by (auto simp: traverse.simps)
next
  case (2 reverse st)
  then show ?case by simp
next
  case (3 reverse dependent rest dependents visited)
  then show ?case
    using traverse_visited_mono(2) [of "traverse reverse dependent (set_add dependent dependents, visited)" reverse rest]
    by auto
qed

lemma traverse_closed:
  "edge_rel reverse `` (snd (traverse reverse p st) - snd st) \<subseteq> snd (traverse reverse p st)"
  "edge_rel reverse `` (snd (traverse_each reverse ds st) - snd st) \<subseteq> snd (traverse_each reverse ds st)"
proof (induction reverse p st and reverse ds st rule: traverse_traverse_each.induct)
  case (1 reverse pkg dependents visited)
  show ?case
  proof (cases "pkg \<in> visited")
    case True
    then show ?thesis by (simp add: traverse.simps)
  next
    case False
    let ?st' = "traverse_each reverse (get_or_empty reverse pkg) (dependents, insert pkg visited)"
    have a: "edge_rel reverse `` (snd ?st' - insert pkg visited) \<subseteq> snd ?st'"
      using 1 False by simp
    have b: "set (get_or_empty reverse pkg) \<subseteq> snd ?st'"
      by (rule traverse_visits(2))
    have "edge_rel reverse `` (snd ?st' - visited)
        \<subseteq> edge_rel reverse `` {pkg} \<union> edge_rel reverse `` (snd ?st' - insert pkg visited)"
      by blast
    with a b have "edge_rel reverse `` (snd ?st' - visited) \<subseteq> snd ?st'"
      unfolding edge_rel_Image by blast
    with False show ?thesis by (simp add: traverse.simps)
  qed
next
  case (2 reverse st)
  then show ?case by simp
next
  case (3 reverse dependent rest dependents visited)
  let ?st1 = "traverse reverse dependent (set_add dependent dependents, visited)"
  let ?st' = "traverse_each reverse rest ?st1"
  have a: "edge_rel reverse `` (snd ?st1 - visited) \<subseteq> snd ?st1" using 3(1) by simp
  have b: "edge_rel reverse `` (snd ?st' - snd ?st1) \<subseteq> snd ?st'" using 3(2) by simp
  have c: "snd ?st1 \<subseteq> snd ?st'" by (rule traverse_visited_mono(2))
  have "edge_rel reverse `` (snd ?st' - visited)
      \<subseteq> edge_rel reverse `` (snd ?st' - snd ?st1) \<union> edge_rel reverse `` (snd ?st1 - visited)"
    by blast
  with a b c have "edge_rel reverse `` (snd ?st' - visited) \<subseteq> snd ?st'" by blast
  then show ?case by simp
qed

lemma traverse_sound:
  "snd (traverse reverse p st) - snd st \<subseteq> (edge_rel reverse)\<^sup>* `` {p}"
  "snd (traverse_each reverse ds st) - snd st \<subseteq> (edge_rel reverse)\<^sup>* `` set ds"
proof (induction reverse p st and reverse ds st rule: traverse_traverse_each.induct)
  case (1 reverse pkg dependents visited)
  show ?case
  proof (cases "pkg \<in> visited")
    case True
    then show ?thesis by (simp add: traverse.simps)
  next
    case False
    let ?st' = "traverse_each reverse (get_or_empty reverse pkg) (dependents, insert pkg visited)"
    have a: "snd ?st' - insert pkg visited \<subseteq> (edge_rel reverse)\<^sup>* `` (edge_rel reverse `` {pkg})"
      using 1 False by (simp add: edge_rel_Image)
    have "(edge_rel reverse)\<^sup>* `` (edge_rel reverse `` {pkg}) \<subseteq> (edge_rel reverse)\<^sup>* `` {pkg}"
      by (auto intro: converse_rtrancl_into_rtrancl)
    with a have "snd ?st' - visited \<subseteq> (edge_rel reverse)\<^sup>* `` {pkg}"
      by blast
    with False show ?thesis by (simp add: traverse.simps)
  qed
next
  case (2 reverse st)
  then show ?case by simp
next
  case (3 reverse dependent rest dependents visited)
  let ?st1 = "traverse reverse dependent (set_add dependent dependents, visited)"
  let ?st' = "traverse_each reverse rest ?st1"
  have a: "snd ?st1 - visited \<subseteq> (edge_rel reverse)\<^sup>* `` {dependent}" using 3(1) by simp
  have b: "snd ?st' - snd ?st1 \<subseteq> (edge_rel reverse)\<^sup>* `` set rest" using 3(2) by simp
  have c: "(edge_rel reverse)\<^sup>* `` set (dependent # rest)
      = (edge_rel reverse)\<^sup>* `` {dependent} \<union> (edge_rel reverse)\<^sup>* `` set rest"
    by auto
  from a b have "snd ?st' - visited \<subseteq> (edge_rel reverse)\<^sup>* `` set (dependent # rest)"
    unfolding c by blast
  then show ?case by simp
qed

lemma Image_Diff_split:
  "A \<subseteq> B \<Longrightarrow> B \<subseteq> C \<Longrightarrow> r `` (C - B) \<union> r `` (B - A) = r `` (C - A)"
  by blast

lemma acc_combine:
  "D1 = insert d D \<union> X1 \<Longrightarrow> D' = D1 \<union> R \<union> X2 \<Longrightarrow> X2 \<union> X1 = X
     \<Longrightarrow> D' = D \<union> insert d R \<union> X"
  by blast

lemma traverse_dependents:
  "set (fst (traverse reverse p st)) =
     set (fst st) \<union> edge_rel reverse `` (snd (traverse reverse p st) - snd st)"
  "set (fst (traverse_each reverse ds st)) =
     set (fst st) \<union> set ds \<union> edge_rel reverse `` (snd (traverse_each reverse ds st) - snd st)"
proof (induction reverse p st and reverse ds st rule: traverse_traverse_each.induct)
  case (1 reverse pkg dependents visited)
  show ?case
  proof (cases "pkg \<in> visited")
    case True
    then show ?thesis by (simp add: traverse.simps)
  next
    case False
    let ?st' = "traverse_each reverse (get_or_empty reverse pkg) (dependents, insert pkg visited)"
    have a: "set (fst ?st') = set dependents \<union> edge_rel reverse `` {pkg}
               \<union> edge_rel reverse `` (snd ?st' - insert pkg visited)"
      using 1 False by (simp add: edge_rel_Image)
    have b: "pkg \<in> snd ?st'"
      using traverse_visited_mono(2) [of "(dependents, insert pkg visited)" reverse "get_or_empty reverse pkg"]
      by auto
    have "edge_rel reverse `` {pkg} \<union> edge_rel reverse `` (snd ?st' - insert pkg visited)
        = edge_rel reverse `` (snd ?st' - visited)"
      using b False by blast
    with a have "set (fst ?st') = set dependents \<union> edge_rel reverse `` (snd ?st' - visited)"
      by blast
    with False show ?thesis by (simp add: traverse.simps)
  qed
next
  case (2 reverse st)
  then show ?case by simp
next
  case (3 reverse dependent rest dependents visited)
  let ?st1 = "traverse reverse dependent (set_add dependent dependents, visited)"
  let ?st' = "traverse_each reverse rest ?st1"
  have a: "set (fst ?st1) = insert dependent (set dependents) \<union> edge_rel reverse `` (snd ?st1 - visited)"
    using 3(1) by simp
  have b: "set (fst ?st') = set (fst ?st1) \<union> set rest \<union> edge_rel reverse `` (snd ?st' - snd ?st1)"
    using 3(2) by simp
  have c: "snd ?st1 \<subseteq> snd ?st'" by (rule traverse_visited_mono(2))
  have d: "visited \<subseteq> snd ?st1"
    using traverse_visited_mono(1) [of "(set_add dependent dependents, visited)" reverse dependent]
    by simp
  have e: "edge_rel reverse `` (snd ?st' - snd ?st1) \<union> edge_rel reverse `` (snd ?st1 - visited)
      = edge_rel reverse `` (snd ?st' - visited)"
    using d c by (rule Image_Diff_split)
  have "set (fst ?st') = set dependents \<union> insert dependent (set rest)
       \<union> edge_rel reverse `` (snd ?st' - visited)"
    using a b e by (rule acc_combine)
  then show ?case by simp
qed

lemma traverse_distinct:
  "distinct (fst st) \<Longrightarrow> distinct (fst (traverse reverse p st))"
  "distinct (fst st) \<Longrightarrow> distinct (fst (traverse_each reverse ds st))"
  by (induction reverse p st and reverse ds st rule: traverse_traverse_each.induct)
    (auto simp: traverse.simps)

lemma closed_rtrancl_Image:
  assumes "p \<in> V" "r `` V \<subseteq> V"
  shows "r\<^sup>* `` {p} \<subseteq> V"
proof
  fix q assume "q \<in> r\<^sup>* `` {p}"
  then have "(p, q) \<in> r\<^sup>*" by simp
  then show "q \<in> V"
    using assms by (induction rule: rtrancl_induct) auto
qed

lemma traverse_start_visited:
  "snd (traverse reverse p (ds, {})) = (edge_rel reverse)\<^sup>* `` {p}"
proof
  show "snd (traverse reverse p (ds, {})) \<subseteq> (edge_rel reverse)\<^sup>* `` {p}"
    using traverse_sound(1) [of reverse p "(ds, {})"] by simp
  show "(edge_rel reverse)\<^sup>* `` {p} \<subseteq> snd (traverse reverse p (ds, {}))"
    using traverse_closed(1) [of reverse p "(ds, {})"] traverse_visits(1) [of p reverse "(ds, {})"]
    by (intro closed_rtrancl_Image) simp_all
qed

lemma set_findAllDependents:
  "set (findAllDependents packageName graph) = (edge_rel (reverseEdges graph))\<^sup>+ `` {packageName}"
proof -
  let ?r = "edge_rel (reverseEdges graph)"
  have "set (findAllDependents packageName graph) = ?r `` (?r\<^sup>* `` {packageName})"
    using traverse_dependents(1) [of "reverseEdges graph" packageName "([], {})"]
    by (simp add: findAllDependents_def traverse_start_visited)
  also have "\<dots> = ?r\<^sup>+ `` {packageName}"
    by (auto simp: trancl_unfold_right relcomp_unfold Image_def)
  finally show ?thesis .
qed

subsection \<open>The graphs of the tests, evaluated\<close>

lemmas eval_containers = new_Set_def set_add_def map_get_def map_has_def map_keys_def
  map_values_def get_or_empty_def

lemmas eval_reverse = buildReverseGraph_def add_dependent_def

lemmas eval_traverse = findAllDependents_def traverse.simps get_or_empty_def map_get_def
  map_has_def set_add_def

lemma chain_graph_eval:
  "edges chain_graph = [(''a'', []), (''b'', [''a'']), (''c'', [''b'']), (''d'', [''c''])]"
  "reverseEdges chain_graph = [(''a'', [''b'']), (''b'', [''c'']), (''c'', [''d''])]"
  "map_keys (packages chain_graph) = [''a'', ''b'', ''c'', ''d'']"
  by (simp_all add: chain_graph_def createMockGraph_def eval_containers eval_reverse)

lemma cycle_graph_eval:
  "edges cycle_graph = [(''a'', [''b'']), (''b'', [''a''])]"
  "reverseEdges cycle_graph = [(''b'', [''a'']), (''a'', [''b''])]"
  "map_keys (packages cycle_graph) = [''a'', ''b'']"
  by (simp_all add: cycle_graph_def createMockGraph_def eval_containers eval_reverse)

subsection \<open>Claims on findAllDependents\<close>

lemma findAllDependents_empty:
  assumes "get_or_empty (reverseEdges graph) packageName = []"
  shows "findAllDependents packageName graph = []"
  using assms by (simp add: findAllDependents_def traverse.simps)

text \<open>
  Claim C4, amended. \<^verbatim>\<open>findAllDependents(name, graph)\<close> returns exactly the names that
  are reachable from \<open>name\<close> by one or more steps of \<^verbatim>\<open>reverseEdges\<close>, each once. The
  name itself is in the result exactly when it lies on a cycle of \<^verbatim>\<open>reverseEdges\<close>.
  When \<open>name\<close> is not a key of \<^verbatim>\<open>reverseEdges\<close> or has an empty set there, the result
  is empty. The function is total: it raises no error.
\<close>

theorem findAllDependents_reachable:
  "set (findAllDependents packageName graph)
     = {p. (packageName, p) \<in> (edge_rel (reverseEdges graph))\<^sup>+}
   \<and> distinct (findAllDependents packageName graph)
   \<and> (packageName \<in> set (findAllDependents packageName graph)
        \<longleftrightarrow> (packageName, packageName) \<in> (edge_rel (reverseEdges graph))\<^sup>+)
   \<and> (\<not> map_has (reverseEdges graph) packageName
        \<or> map_get (reverseEdges graph) packageName = Some []
        \<longrightarrow> findAllDependents packageName graph = [])"
proof -
  have 1: "set (findAllDependents packageName graph)
     = {p. (packageName, p) \<in> (edge_rel (reverseEdges graph))\<^sup>+}"
    unfolding set_findAllDependents by blast
  have 2: "distinct (findAllDependents packageName graph)"
    unfolding findAllDependents_def by (rule traverse_distinct(1)) simp
  have 3: "packageName \<in> set (findAllDependents packageName graph)
        \<longleftrightarrow> (packageName, packageName) \<in> (edge_rel (reverseEdges graph))\<^sup>+"
    unfolding 1 by simp
  have 4: "\<not> map_has (reverseEdges graph) packageName
        \<or> map_get (reverseEdges graph) packageName = Some []
        \<longrightarrow> findAllDependents packageName graph = []"
  proof
    assume "\<not> map_has (reverseEdges graph) packageName
        \<or> map_get (reverseEdges graph) packageName = Some []"
    then have "get_or_empty (reverseEdges graph) packageName = []"
      by (auto simp: get_or_empty_def map_has_iff)
    then show "findAllDependents packageName graph = []"
      by (rule findAllDependents_empty)
  qed
  from 1 2 3 4 show ?thesis by (intro conjI)
qed

text \<open>
  The chain \<open>a \<leftarrow> b \<leftarrow> c \<leftarrow> d\<close> of the tests: the dependents of \<open>a\<close> are \<open>b\<close>, \<open>c\<close> and
  \<open>d\<close>; \<open>d\<close> has none, and neither has a name the graph does not know.
\<close>

theorem findAllDependents_reachable_witness:
  "findAllDependents ''a'' chain_graph = [''b'', ''c'', ''d'']
   \<and> {p. (''a'', p) \<in> (edge_rel (reverseEdges chain_graph))\<^sup>+} = {''b'', ''c'', ''d''}
   \<and> \<not> map_has (reverseEdges chain_graph) ''d''
   \<and> findAllDependents ''d'' chain_graph = []
   \<and> findAllDependents ''zzz'' chain_graph = []"
  using findAllDependents_reachable [of "''a''" chain_graph]
    findAllDependents_reachable [of "''d''" chain_graph]
    findAllDependents_reachable [of "''zzz''" chain_graph]
  by (simp add: chain_graph_eval eval_traverse)

text \<open>
  Claim C4 as stated says that the result never includes \<open>name\<close> itself. On the
  two-package cycle of the tests, where \<open>a\<close> depends on \<open>b\<close> and \<open>b\<close> on \<open>a\<close>, the
  dependents of \<open>a\<close> are \<open>b\<close> and \<open>a\<close>.
\<close>

theorem findAllDependents_self_counterexample:
  "findAllDependents ''a'' cycle_graph = [''b'', ''a'']
   \<and> ''a'' \<in> set (findAllDependents ''a'' cycle_graph)"
  by (simp add: cycle_graph_eval eval_traverse)

text \<open>
  Claim C9. \<^verbatim>\<open>findAllDependents\<close> terminates on every graph, cyclic reverse edges
  included: every call of \<^verbatim>\<open>traverse\<close> and of its loop lies in the domain on which the
  recursion is well-founded (the measure is the number of keys of \<^verbatim>\<open>reverseEdges\<close>
  not yet in \<^verbatim>\<open>visited\<close>). A name is expanded at most once: \<^verbatim>\<open>visited\<close> only grows, it
  holds the name after the call, and a call on a name that it holds returns the state
  as it is.
\<close>

theorem findAllDependents_terminates:
  "traverse_traverse_each_dom (Inl (reverseEdges graph, packageName, ([], {})))
   \<and> traverse_traverse_each_dom (Inl (reverse, p, st))
   \<and> traverse_traverse_each_dom (Inr (reverse, ds, st))
   \<and> snd st \<subseteq> snd (traverse reverse p st)
   \<and> p \<in> snd (traverse reverse p st)
   \<and> (p \<in> snd st \<longrightarrow> traverse reverse p st = st)"
proof -
  have "p \<in> snd st \<longrightarrow> traverse reverse p st = st"
    by (cases st) (simp add: traverse.simps)
  then show ?thesis
    using traverse_total traverse_visited_mono(1) [of st reverse p] traverse_visits(1) [of p reverse st]
    by simp
qed

text \<open>On the two-package cycle the traversal from \<open>a\<close> ends with both names visited.\<close>

theorem findAllDependents_terminates_witness:
  "traverse_traverse_each_dom (Inl (reverseEdges cycle_graph, ''a'', ([], {})))
   \<and> ''a'' \<in> snd ([''a''], {''a''})
   \<and> traverse (reverseEdges cycle_graph) ''a'' ([''a''], {''a''}) = ([''a''], {''a''})
   \<and> traverse (reverseEdges cycle_graph) ''a'' ([], {}) = ([''b'', ''a''], {''a'', ''b''})"
  using findAllDependents_terminates [of cycle_graph "''a''" "reverseEdges cycle_graph" "''a''" "([''a''], {''a''})" "[]"]
  by (simp add: cycle_graph_eval eval_traverse insert_commute)

end
